theory Spec2Isabelle
  imports Main
begin

section \<open>Text\<close>

text \<open>
  A Python \<^verbatim>\<open>str\<close> is a sequence of Unicode code points; a code point is modelled by its
  number. \<open>ustr\<close> writes an ASCII literal as such a sequence.
\<close>

type_synonym str = "nat list"

definition ustr :: "string \<Rightarrow> str" where
  "ustr cs = map of_char cs"

text \<open>
  \<^verbatim>\<open>str.isspace\<close> of one code point: the code points CPython classifies as whitespace.
\<close>

definition isspace :: "nat \<Rightarrow> bool" where
  "isspace c \<longleftrightarrow>
     (9 \<le> c \<and> c \<le> 13) \<or> (28 \<le> c \<and> c \<le> 32) \<or> c = 133 \<or> c = 160 \<or> c = 5760 \<or>
     (8192 \<le> c \<and> c \<le> 8202) \<or> c = 8232 \<or> c = 8233 \<or> c = 8239 \<or> c = 8287 \<or> c = 12288"

text \<open>\<^verbatim>\<open>str.strip()\<close>: whitespace removed from both ends.\<close>

definition strip :: "str \<Rightarrow> str" where
  "strip s = rev (dropWhile isspace (rev (dropWhile isspace s)))"

text \<open>
  \<^verbatim>\<open>full_response.split('```')\<close>: the text is scanned from the left; at each occurrence of
  three backticks (code point 96) the piece collected so far is closed and the scan goes on
  behind the delimiter. \<open>cur\<close> is the piece being collected.
\<close>

fun split_fence :: "str \<Rightarrow> str \<Rightarrow> str list" where
  "split_fence cur [] = [cur]"
| "split_fence cur (c # cs) =
     (if c = 96 \<and> take 2 cs = [96, 96] then cur # split_fence [] (drop 2 cs)
      else split_fence (cur @ [c]) cs)"

definition py_split :: "str \<Rightarrow> str list" where
  "py_split s = split_fence [] s"

text \<open>
  The loop of \<^verbatim>\<open>split_and_create_boxes\<close> (lines 302 to 309): for each part with a non-empty
  \<^verbatim>\<open>part.strip()\<close> a box for \<^verbatim>\<open>(part.strip(), is_code)\<close> is made and \<^verbatim>\<open>is_code\<close> is
  negated; the negation is inside the \<^verbatim>\<open>if\<close>.
\<close>

fun create_boxes :: "bool \<Rightarrow> str list \<Rightarrow> (str \<times> bool) list" where
  "create_boxes is_code [] = []"
| "create_boxes is_code (part # parts) =
     (if strip part \<noteq> [] then (strip part, is_code) # create_boxes (\<not> is_code) parts
      else create_boxes is_code parts)"

definition segments :: "str \<Rightarrow> (str \<times> bool) list" where
  "segments full_response = create_boxes False (py_split full_response)"

section \<open>JSON values\<close>

text \<open>
  What \<^verbatim>\<open>json.loads\<close> and \<^verbatim>\<open>json.load\<close> return and \<^verbatim>\<open>json.dump\<close> takes: \<^verbatim>\<open>None\<close>,
  a bool, an integer, a str, a list, or a dict (as its items in order; a lookup finds the
  item of a key). Floating-point numbers are not represented.
\<close>

datatype json = JNull | JBool bool | JInt int | JStr str | JArr "json list" | JObj "(str \<times> json) list"

text \<open>Python's truth value of such a value (\<^verbatim>\<open>if x\<close>, \<^verbatim>\<open>not x\<close>).\<close>

fun truthy :: "json \<Rightarrow> bool" where
  "truthy JNull = False"
| "truthy (JBool b) = b"
| "truthy (JInt n) = (n \<noteq> 0)"
| "truthy (JStr t) = (t \<noteq> [])"
| "truthy (JArr xs) = (xs \<noteq> [])"
| "truthy (JObj kvs) = (kvs \<noteq> [])"

text \<open>\<^verbatim>\<open>sub in s\<close> on two strs: \<open>sub\<close> occurs in \<open>s\<close> as a contiguous run.\<close>

fun contains :: "str \<Rightarrow> str \<Rightarrow> bool" where
  "contains sub [] = (sub = [])"
| "contains sub (c # cs) = (take (length sub) (c # cs) = sub \<or> contains sub cs)"

text \<open>The name of a value's Python type, as the interpreter prints it in a TypeError.\<close>

fun type_name :: "json \<Rightarrow> str" where
  "type_name JNull = ustr ''NoneType''"
| "type_name (JBool b) = ustr ''bool''"
| "type_name (JInt n) = ustr ''int''"
| "type_name (JStr t) = ustr ''str''"
| "type_name (JArr xs) = ustr ''list''"
| "type_name (JObj kvs) = ustr ''dict''"

section \<open>Message boxes and the persisted history\<close>

text \<open>
  A \<^verbatim>\<open>MessageBox\<close> widget: \<open>wid\<close> stands for the identity of the Python object, \<open>label\<close>
  for what \<^verbatim>\<open>label.get_text()\<close> returns (the text given to the constructor or to
  \<^verbatim>\<open>set_text\<close>, without markup).
\<close>

record message_box =
  wid :: nat
  label :: str
  is_user :: bool
  is_code :: bool

definition MessageBox :: "nat \<Rightarrow> str \<Rightarrow> bool \<Rightarrow> bool \<Rightarrow> message_box" where
  "MessageBox w t u c = \<lparr>wid = w, label = t, is_user = u, is_code = c\<rparr>"

text \<open>
  The file \<^verbatim>\<open>/tmp/MAGI/chat_history.json\<close>: missing, present but not readable
  (\<^verbatim>\<open>open\<close> raises an OSError other than FileNotFoundError), present with content that
  \<^verbatim>\<open>json.load\<close> rejects, or present with the JSON value it holds.
\<close>

datatype storage = Absent | Unreadable | Garbage | Stored json

datatype error = OSError | JSONDecodeError | TypeError | KeyError

text \<open>One worker thread running \<^verbatim>\<open>send_to_ollama\<close>: where it stands and its local variables.\<close>

datatype pc =
    Started       \<comment> \<open>thread started, nothing executed yet\<close>
  | Requesting    \<comment> \<open>placeholder made, inside \<^verbatim>\<open>requests.post\<close>\<close>
  | Reading       \<comment> \<open>inside the loop over \<^verbatim>\<open>response.iter_lines()\<close>\<close>
  | Handling      \<comment> \<open>inside the \<^verbatim>\<open>except\<close> block, after \<^verbatim>\<open>GLib.idle_add\<close>\<close>
  | Finished

record session =
  prompt :: str
  pc :: pc
  live_box :: "nat option"        \<comment> \<open>\<open>wid\<close> of the placeholder, once made\<close>
  full_response :: str
  response :: "nat option"        \<comment> \<open>status code of the response, once received\<close>
  e_var :: "str option"           \<comment> \<open>\<^verbatim>\<open>str(e)\<close> while the variable \<^verbatim>\<open>e\<close> is bound\<close>

text \<open>
  The callables given to \<^verbatim>\<open>GLib.idle_add\<close> by the worker; the number is the thread whose
  variables the closure refers to. They read those variables when they run.
\<close>

datatype closure =
    Update nat                    \<comment> \<open>\<^verbatim>\<open>update\<close>, line 290\<close>
  | Split_and_create_boxes nat    \<comment> \<open>\<^verbatim>\<open>split_and_create_boxes\<close>, line 299\<close>
  | Lambda_http nat               \<comment> \<open>the lambda of line 317\<close>
  | Lambda_exc nat                \<comment> \<open>the lambda of line 320\<close>

text \<open>
  The window: the entry's text, the children of \<^verbatim>\<open>messages_box\<close> in order, the history file,
  the next unused widget identity, the worker threads started so far, and the main loop's
  queue of idle callbacks (first in, first out). The scroll position is not part of the
  model, so \<^verbatim>\<open>scroll_to_bottom\<close> and its \<^verbatim>\<open>_scroll\<close> callbacks are left out.
\<close>

record state =
  entry :: str
  messages_box :: "message_box list"
  storage :: storage
  next_wid :: nat
  threads :: "session list"
  idle :: "closure list"

subsection \<open>\<^verbatim>\<open>save_history\<close>\<close>

definition dump :: "message_box \<Rightarrow> json" where
  "dump child = JObj [(ustr ''text'', JStr (label child)),
                      (ustr ''is_user'', JBool (is_user child)),
                      (ustr ''is_code'', JBool (is_code child))]"

text \<open>The directory and the file are taken to be writable: the write replaces the file.\<close>

definition save_history :: "state \<Rightarrow> state" where
  "save_history s = s\<lparr>storage := Stored (JArr (map dump (messages_box s)))\<rparr>"

subsection \<open>\<^verbatim>\<open>load_history\<close>\<close>

text \<open>\<^verbatim>\<open>for msg in history\<close>: what the loop visits.\<close>

fun iterate :: "json \<Rightarrow> error + json list" where
  "iterate (JArr xs) = Inr xs"
| "iterate (JObj kvs) = Inr (map (\<lambda>kv. JStr (fst kv)) kvs)"
| "iterate (JStr t) = Inr (map (\<lambda>c. JStr [c]) t)"
| "iterate _ = Inl TypeError"

text \<open>\<^verbatim>\<open>msg[key]\<close> with a str key.\<close>

fun subscript :: "json \<Rightarrow> str \<Rightarrow> error + json" where
  "subscript (JObj kvs) key = (case map_of kvs key of None \<Rightarrow> Inl KeyError | Some v \<Rightarrow> Inr v)"
| "subscript _ key = Inl TypeError"

text \<open>\<^verbatim>\<open>msg.get(key, False)\<close>; reached only for a dict, since \<^verbatim>\<open>msg['text']\<close> comes first.\<close>

fun get_default :: "json \<Rightarrow> str \<Rightarrow> json \<Rightarrow> json" where
  "get_default (JObj kvs) key d = (case map_of kvs key of None \<Rightarrow> d | Some v \<Rightarrow> v)"
| "get_default _ key d = d"

text \<open>
  \<^verbatim>\<open>MessageBox(msg['text'], msg['is_user'], self, msg.get('is_code', False))\<close> for one
  element of the history. The label needs a str. The two flags are only ever tested for
  truth by the constructor; the code keeps the loaded values themselves, the model keeps
  their truth values, which is the same for the bools that \<^verbatim>\<open>save_history\<close> writes.
\<close>

definition load_box :: "nat \<Rightarrow> json \<Rightarrow> error + message_box" where
  "load_box w msg =
     (case subscript msg (ustr ''text'') of
        Inl err \<Rightarrow> Inl err
      | Inr t \<Rightarrow>
         (case subscript msg (ustr ''is_user'') of
            Inl err \<Rightarrow> Inl err
          | Inr u \<Rightarrow>
             (case t of
                JStr txt \<Rightarrow>
                  Inr (MessageBox w txt (truthy u)
                         (truthy (get_default msg (ustr ''is_code'') (JBool False))))
              | _ \<Rightarrow> Inl TypeError)))"

fun load_boxes :: "nat \<Rightarrow> json list \<Rightarrow> error + message_box list" where
  "load_boxes w [] = Inr []"
| "load_boxes w (msg # rest) =
     (case load_box w msg of
        Inl err \<Rightarrow> Inl err
      | Inr b \<Rightarrow>
         (case load_boxes (Suc w) rest of
            Inl err \<Rightarrow> Inl err
          | Inr bs \<Rightarrow> Inr (b # bs)))"

text \<open>
  \<^verbatim>\<open>load_history\<close>: FileNotFoundError is caught and passed over; every other exception
  leaves the method (\<open>Inl\<close>).
\<close>

definition load_history :: "state \<Rightarrow> error + state" where
  "load_history s =
     (case storage s of
        Absent \<Rightarrow> Inr s
      | Unreadable \<Rightarrow> Inl OSError
      | Garbage \<Rightarrow> Inl JSONDecodeError
      | Stored history \<Rightarrow>
         (case iterate history of
            Inl err \<Rightarrow> Inl err
          | Inr msgs \<Rightarrow>
             (case load_boxes (next_wid s) msgs of
                Inl err \<Rightarrow> Inl err
              | Inr bs \<Rightarrow>
                  Inr (s\<lparr>messages_box := messages_box s @ bs,
                         next_wid := next_wid s + length bs\<rparr>))))"

text \<open>A window under construction, before \<^verbatim>\<open>load_history\<close> runs in \<^verbatim>\<open>setup_window\<close>.\<close>

definition new_window :: "storage \<Rightarrow> state" where
  "new_window st = \<lparr>entry = [], messages_box = [], storage = st, next_wid = 0,
                    threads = [], idle = []\<rparr>"

definition setup_window :: "storage \<Rightarrow> error + state" where
  "setup_window st = load_history (new_window st)"

section \<open>The presentation thread\<close>

text \<open>\<^verbatim>\<open>add_message\<close>: a new box at the end; the history is saved for a user message only.\<close>

definition add_message :: "str \<Rightarrow> bool \<Rightarrow> state \<Rightarrow> state" where
  "add_message t u s =
     (let s1 = s\<lparr>messages_box := messages_box s @ [MessageBox (next_wid s) t u False],
                 next_wid := Suc (next_wid s)\<rparr>
      in if u then save_history s1 else s1)"

text \<open>\<^verbatim>\<open>threading.Thread(target=self.send_to_ollama, args=(text,)).start()\<close>\<close>

definition new_thread :: "str \<Rightarrow> session" where
  "new_thread t = \<lparr>prompt = t, pc = Started, live_box = None, full_response = [],
                   response = None, e_var = None\<rparr>"

definition on_send :: "state \<Rightarrow> state" where
  "on_send s =
     (let t = strip (entry s) in
      if t \<noteq> [] then
        (let s1 = add_message t True s; s2 = s1\<lparr>entry := []\<rparr>
         in s2\<lparr>threads := threads s2 @ [new_thread t]\<rparr>)
      else s)"

text \<open>
  \<^verbatim>\<open>on_delete_clicked\<close> of the box \<open>k\<close>; only a box that is not code has the button, and only
  a child of \<^verbatim>\<open>messages_box\<close> is on the screen to be clicked.
\<close>

definition on_delete_clicked :: "nat \<Rightarrow> state \<Rightarrow> state" where
  "on_delete_clicked k s =
     (if \<exists>b \<in> set (messages_box s). wid b = k \<and> \<not> is_code b
      then save_history (s\<lparr>messages_box := filter (\<lambda>b. wid b \<noteq> k) (messages_box s)\<rparr>)
      else s)"

text \<open>\<^verbatim>\<open>on_edit_clicked\<close> of the box \<open>k\<close>; only a user box that is not code has the button.\<close>

definition on_edit_clicked :: "nat \<Rightarrow> state \<Rightarrow> state" where
  "on_edit_clicked k s =
     (case filter (\<lambda>b. wid b = k \<and> is_user b \<and> \<not> is_code b) (messages_box s) of
        [] \<Rightarrow> s
      | b # _ \<Rightarrow> s\<lparr>entry := label b\<rparr>)"

subsection \<open>The idle callbacks\<close>

text \<open>\<^verbatim>\<open>update\<close>: \<^verbatim>\<open>live_box.label.set_text(full_response)\<close>, with the value the variable has now.\<close>

definition update :: "nat \<Rightarrow> state \<Rightarrow> state" where
  "update i s =
     (let t = threads s ! i in
      s\<lparr>messages_box :=
          map (\<lambda>b. if Some (wid b) = live_box t then b\<lparr>label := full_response t\<rparr> else b)
            (messages_box s)\<rparr>)"

text \<open>The loop of lines 305 to 309 on the window: one new box per segment.\<close>

fun append_boxes :: "(str \<times> bool) list \<Rightarrow> state \<Rightarrow> state" where
  "append_boxes [] s = s"
| "append_boxes (seg # segs) s =
     append_boxes segs
       (s\<lparr>messages_box := messages_box s @ [MessageBox (next_wid s) (fst seg) False (snd seg)],
          next_wid := Suc (next_wid s)\<rparr>)"

definition split_and_create_boxes :: "nat \<Rightarrow> state \<Rightarrow> state" where
  "split_and_create_boxes i s =
     (let t = threads s ! i;
          s1 = s\<lparr>messages_box := filter (\<lambda>b. Some (wid b) \<noteq> live_box t) (messages_box s)\<rparr>
      in save_history (append_boxes (segments (full_response t)) s1))"

text \<open>\<^verbatim>\<open>str(n)\<close> of a status code: its decimal digits.\<close>

function str_nat :: "nat \<Rightarrow> str" where
  "str_nat n = (if n < 10 then [48 + n] else str_nat (n div 10) @ [48 + n mod 10])"
  by pat_completeness auto
termination
  by (relation "measure id") auto

declare str_nat.simps [simp del]

definition lambda_http :: "nat \<Rightarrow> state \<Rightarrow> state" where
  "lambda_http i s =
     (case response (threads s ! i) of
        None \<Rightarrow> s
      | Some status_code \<Rightarrow> add_message (ustr ''Error: HTTP '' @ str_nat status_code) False s)"

text \<open>
  The lambda of the \<^verbatim>\<open>except\<close> block reads \<^verbatim>\<open>e\<close> when it runs. Python unbinds \<^verbatim>\<open>e\<close> at the end
  of the \<^verbatim>\<open>except\<close> block; a lambda that runs after that raises NameError and adds nothing.
\<close>

definition lambda_exc :: "nat \<Rightarrow> state \<Rightarrow> state" where
  "lambda_exc i s =
     (case e_var (threads s ! i) of
        None \<Rightarrow> s
      | Some msg \<Rightarrow> add_message (ustr ''Error: '' @ msg) False s)"

fun owner :: "closure \<Rightarrow> nat" where
  "owner (Update i) = i"
| "owner (Split_and_create_boxes i) = i"
| "owner (Lambda_http i) = i"
| "owner (Lambda_exc i) = i"

fun call :: "closure \<Rightarrow> state \<Rightarrow> state" where
  "call (Update i) s = update i s"
| "call (Split_and_create_boxes i) s = split_and_create_boxes i s"
| "call (Lambda_http i) s = lambda_http i s"
| "call (Lambda_exc i) s = lambda_exc i s"

text \<open>The main loop runs the oldest idle callback; each returns \<^verbatim>\<open>None\<close> and so runs once.\<close>

definition dispatch :: "state \<Rightarrow> state" where
  "dispatch s =
     (case idle s of
        [] \<Rightarrow> s
      | c # q \<Rightarrow> if owner c < length (threads s) then call c (s\<lparr>idle := q\<rparr>) else s\<lparr>idle := q\<rparr>)"

section \<open>The worker thread: \<^verbatim>\<open>send_to_ollama\<close>\<close>

text \<open>\<^verbatim>\<open>response.ok\<close> of the requests library: the status is not in 400..599.\<close>

definition ok :: "nat \<Rightarrow> bool" where
  "ok status_code \<longleftrightarrow> \<not> (400 \<le> status_code \<and> status_code < 600)"

text \<open>
  One line given by \<^verbatim>\<open>response.iter_lines()\<close>, by what \<^verbatim>\<open>json.loads\<close> makes of it: an empty
  line (not passed to \<^verbatim>\<open>json.loads\<close>), a line on which it raises JSONDecodeError, a line on
  which it raises another exception (with its \<^verbatim>\<open>str\<close>), or the value it returns.
\<close>

datatype line = Blank | Garbled | Undecodable str | Parsed json

text \<open>
  Lines 286 and 287: \<^verbatim>\<open>'response' in chunk\<close>, then \<^verbatim>\<open>chunk['response']\<close>. \<open>Inr None\<close>: the
  test is false. \<open>Inl\<close>: a TypeError, with the wording of CPython up to 3.10 (later versions
  word some of them differently).
\<close>

fun chunk_response :: "json \<Rightarrow> str + json option" where
  "chunk_response (JObj kvs) = Inr (map_of kvs (ustr ''response''))"
| "chunk_response (JArr xs) =
     (if JStr (ustr ''response'') \<in> set xs
      then Inl (ustr ''list indices must be integers or slices, not str'') else Inr None)"
| "chunk_response (JStr t) =
     (if contains (ustr ''response'') t
      then Inl (ustr ''string indices must be integers'') else Inr None)"
| "chunk_response v =
     Inl (ustr ''argument of type '' @ [39] @ type_name v @ [39] @ ustr '' is not iterable'')"

text \<open>Line 288: \<^verbatim>\<open>full_response += text\<close>.\<close>

fun concatenate :: "str \<Rightarrow> json \<Rightarrow> str + str" where
  "concatenate full (JStr t) = Inr (full @ t)"
| "concatenate full v =
     Inl (ustr ''can only concatenate str (not '' @ [34] @ type_name v @ [34] @ ustr '') to str'')"

text \<open>
  The body of the loop for one line (lines 283 to 296). \<open>Inl msg\<close>: an exception leaves the
  loop. \<open>Inr None\<close>: nothing is appended and no callback is posted. \<open>Inr (Some full)\<close>: the
  new value of \<^verbatim>\<open>full_response\<close>, and \<^verbatim>\<open>update\<close> is posted.
\<close>

fun handle_line :: "str \<Rightarrow> line \<Rightarrow> str + str option" where
  "handle_line full Blank = Inr None"
| "handle_line full Garbled = Inr None"
| "handle_line full (Undecodable msg) = Inl msg"
| "handle_line full (Parsed chunk) =
     (case chunk_response chunk of
        Inl msg \<Rightarrow> Inl msg
      | Inr None \<Rightarrow> Inr None
      | Inr (Some v) \<Rightarrow>
         (case concatenate full v of Inl msg \<Rightarrow> Inl msg | Inr full' \<Rightarrow> Inr (Some full')))"

text \<open>
  What a worker meets at its next step: nothing from outside (\<open>Go\<close>), \<^verbatim>\<open>requests.post\<close>
  raising or returning a response with a status, the next line of the stream, its end, or an
  exception while reading it.
\<close>

datatype event = Go | Refuse str | Respond nat | Line line | Eof | Broken str

definition idle_add :: "closure \<Rightarrow> state \<Rightarrow> state" where
  "idle_add c s = s\<lparr>idle := idle s @ [c]\<rparr>"

definition set_thread :: "nat \<Rightarrow> session \<Rightarrow> state \<Rightarrow> state" where
  "set_thread i t s = s\<lparr>threads := (threads s)[i := t]\<rparr>"

text \<open>\<^verbatim>\<open>except Exception as e\<close>: \<^verbatim>\<open>e\<close> is bound and the lambda of line 320 is posted.\<close>

definition raise_in :: "nat \<Rightarrow> str \<Rightarrow> session \<Rightarrow> state \<Rightarrow> state" where
  "raise_in i msg t s = idle_add (Lambda_exc i) (set_thread i (t\<lparr>e_var := Some msg, pc := Handling\<rparr>) s)"

text \<open>One step of the worker \<open>i\<close>, whose variables are \<open>t\<close>.\<close>

fun step_thread :: "nat \<Rightarrow> session \<Rightarrow> event \<Rightarrow> state \<Rightarrow> state" where
  "step_thread i t Go s =
     (case pc t of
        Started \<Rightarrow>
          set_thread i (t\<lparr>live_box := Some (next_wid s), full_response := [], pc := Requesting\<rparr>)
            (s\<lparr>messages_box := messages_box s @ [MessageBox (next_wid s) (ustr ''...'') False False],
               next_wid := Suc (next_wid s)\<rparr>)
      | Handling \<Rightarrow> set_thread i (t\<lparr>e_var := None, pc := Finished\<rparr>) s
      | _ \<Rightarrow> s)"
| "step_thread i t (Refuse msg) s = (if pc t = Requesting then raise_in i msg t s else s)"
| "step_thread i t (Respond status_code) s =
     (if pc t = Requesting then
        (if ok status_code
         then set_thread i (t\<lparr>response := Some status_code, pc := Reading\<rparr>) s
         else idle_add (Lambda_http i)
                (set_thread i (t\<lparr>response := Some status_code, pc := Finished\<rparr>) s))
      else s)"
| "step_thread i t (Line l) s =
     (if pc t = Reading then
        (case handle_line (full_response t) l of
           Inl msg \<Rightarrow> raise_in i msg t s
         | Inr None \<Rightarrow> s
         | Inr (Some full) \<Rightarrow> idle_add (Update i) (set_thread i (t\<lparr>full_response := full\<rparr>) s))
      else s)"
| "step_thread i t Eof s =
     (if pc t = Reading
      then idle_add (Split_and_create_boxes i) (set_thread i (t\<lparr>pc := Finished\<rparr>) s)
      else s)"
| "step_thread i t (Broken msg) s = (if pc t = Reading then raise_in i msg t s else s)"

definition work :: "nat \<Rightarrow> event \<Rightarrow> state \<Rightarrow> state" where
  "work i ev s = (if i < length (threads s) then step_thread i (threads s ! i) ev s else s)"

section \<open>Runs\<close>

text \<open>
  What can happen next: the user edits the entry, the user sends (\<^verbatim>\<open>activate\<close> or
  \<^verbatim>\<open>clicked\<close>), a worker makes a step, the main loop runs an idle callback, the user clicks
  a delete or an edit button. A schedule is a list of these; an action that is not possible
  in a state leaves it as it is.
\<close>

datatype action = Type str | Send | Work nat event | Dispatch | Delete nat | Edit nat

fun exec :: "action \<Rightarrow> state \<Rightarrow> state" where
  "exec (Type t) s = s\<lparr>entry := t\<rparr>"
| "exec Send s = on_send s"
| "exec (Work i ev) s = work i ev s"
| "exec Dispatch s = dispatch s"
| "exec (Delete k) s = on_delete_clicked k s"
| "exec (Edit k) s = on_edit_clicked k s"

fun run :: "action list \<Rightarrow> state \<Rightarrow> state" where
  "run [] s = s"
| "run (a # acts) s = run acts (exec a s)"

text \<open>
  The callbacks of the design, as they happen in a run: \<open>OnChunk i t\<close> when \<^verbatim>\<open>update\<close> of
  thread \<open>i\<close> runs and shows \<open>t\<close>, \<open>OnDone i t\<close> when its \<^verbatim>\<open>split_and_create_boxes\<close> runs and
  splits \<open>t\<close>, \<open>OnError i\<close> when one of its two lambdas runs.
\<close>

datatype callback = OnChunk nat str | OnDone nat str | OnError nat

fun callback_of :: "closure \<Rightarrow> state \<Rightarrow> callback" where
  "callback_of (Update i) s = OnChunk i (full_response (threads s ! i))"
| "callback_of (Split_and_create_boxes i) s = OnDone i (full_response (threads s ! i))"
| "callback_of (Lambda_http i) s = OnError i"
| "callback_of (Lambda_exc i) s = OnError i"

fun observe :: "action \<Rightarrow> state \<Rightarrow> callback list" where
  "observe Dispatch s = (case idle s of [] \<Rightarrow> [] | c # q \<Rightarrow> [callback_of c s])"
| "observe a s = []"

fun trace :: "action list \<Rightarrow> state \<Rightarrow> callback list" where
  "trace [] s = []"
| "trace (a # acts) s = observe a s @ trace acts (exec a s)"

section \<open>Notions used in the statements\<close>

text \<open>What a box contributes to the conversation log: its text and its two flags.\<close>

definition message :: "message_box \<Rightarrow> str \<times> bool \<times> bool" where
  "message b = (label b, is_user b, is_code b)"

text \<open>
  The persisted format as the specification words it: a JSON array of objects with a
  string \<^verbatim>\<open>text\<close>, a bool \<^verbatim>\<open>is_user\<close> and a bool \<^verbatim>\<open>is_code\<close>.
\<close>

fun holds_str :: "json option \<Rightarrow> bool" where
  "holds_str (Some (JStr t)) = True"
| "holds_str _ = False"

fun holds_bool :: "json option \<Rightarrow> bool" where
  "holds_bool (Some (JBool b)) = True"
| "holds_bool _ = False"

fun entry_format :: "json \<Rightarrow> bool" where
  "entry_format (JObj kvs) =
     (holds_str (map_of kvs (ustr ''text'')) \<and> holds_bool (map_of kvs (ustr ''is_user'')) \<and>
      holds_bool (map_of kvs (ustr ''is_code'')))"
| "entry_format _ = False"

fun history_format :: "json \<Rightarrow> bool" where
  "history_format (JArr xs) = list_all entry_format xs"
| "history_format _ = False"

text \<open>
  A session is live from the start of its thread until the thread has posted its final
  callback (\<^verbatim>\<open>split_and_create_boxes\<close> or one of the two error lambdas).
\<close>

definition live :: "session \<Rightarrow> bool" where
  "live t \<longleftrightarrow> pc t \<noteq> Handling \<and> pc t \<noteq> Finished"

text \<open>What a line appends to \<^verbatim>\<open>full_response\<close>: what it makes of the empty text.\<close>

definition text_of :: "line \<Rightarrow> str" where
  "text_of l = (case handle_line [] l of Inr (Some d) \<Rightarrow> d | _ \<Rightarrow> [])"

text \<open>What thread \<open>i\<close> appends to its \<^verbatim>\<open>full_response\<close> in one action, and in a schedule.\<close>

fun reads :: "nat \<Rightarrow> action \<Rightarrow> state \<Rightarrow> str" where
  "reads i (Work j (Line l)) s =
     (if j = i \<and> i < length (threads s) \<and> pc (threads s ! i) = Reading then text_of l else [])"
| "reads i a s = []"

fun received :: "nat \<Rightarrow> action list \<Rightarrow> state \<Rightarrow> str" where
  "received i [] s = []"
| "received i (a # acts) s = reads i a s @ received i acts (exec a s)"

text \<open>The value of \<^verbatim>\<open>full_response\<close> of thread \<open>i\<close>; empty while the thread does not exist.\<close>

definition accumulated :: "nat \<Rightarrow> state \<Rightarrow> str" where
  "accumulated i s = (if i < length (threads s) then full_response (threads s ! i) else [])"

text \<open>The callbacks of one session in a run, in the order in which they happen.\<close>

fun session_of :: "callback \<Rightarrow> nat" where
  "session_of (OnChunk i t) = i"
| "session_of (OnDone i t) = i"
| "session_of (OnError i) = i"

definition callbacks :: "nat \<Rightarrow> action list \<Rightarrow> state \<Rightarrow> callback list" where
  "callbacks i acts s = filter (\<lambda>cb. session_of cb = i) (trace acts s)"

section \<open>Invariants of a run\<close>

text \<open>
  The callbacks of one thread in the queue: \<^verbatim>\<open>update\<close>s, and behind them at most one final
  callback, which is there only if the thread has posted it (\<open>fin\<close>).
\<close>

fun fifo :: "bool \<Rightarrow> closure list \<Rightarrow> bool" where
  "fifo fin [] = True"
| "fifo fin (Update j # q) = fifo fin q"
| "fifo fin (c # q) = (fin \<and> q = [])"

text \<open>Every callback in the queue belongs to a thread that exists.\<close>

definition owned :: "state \<Rightarrow> bool" where
  "owned s \<longleftrightarrow> (\<forall>c\<in>set (idle s). owner c < length (threads s))"

text \<open>A thread that has not run yet has appended nothing.\<close>

definition unread :: "nat \<Rightarrow> state \<Rightarrow> bool" where
  "unread i s \<longleftrightarrow>
     (i < length (threads s) \<and> pc (threads s ! i) = Started \<longrightarrow> full_response (threads s ! i) = [])"

text \<open>The thread has posted its final callback.\<close>

definition over :: "nat \<Rightarrow> state \<Rightarrow> bool" where
  "over i s \<longleftrightarrow> i < length (threads s) \<and> \<not> live (threads s ! i)"

definition pending :: "nat \<Rightarrow> state \<Rightarrow> closure list" where
  "pending i s = filter (\<lambda>c. owner c = i) (idle s)"

definition queued :: "nat \<Rightarrow> state \<Rightarrow> bool" where
  "queued i s \<longleftrightarrow> fifo (over i s) (pending i s)"

definition sound :: "nat \<Rightarrow> state \<Rightarrow> bool" where
  "sound i s \<longleftrightarrow> owned s \<and> unread i s \<and> queued i s"

section \<open>Evaluation\<close>

lemmas model_defs = on_send_def add_message_def save_history_def new_thread_def work_def
  set_thread_def idle_add_def raise_in_def dispatch_def update_def split_and_create_boxes_def
  lambda_http_def lambda_exc_def new_window_def MessageBox_def ok_def Let_def

lemmas text_defs = ustr_def strip_def isspace_def

section \<open>The splitter\<close>

lemma space_not_backtick: "isspace c \<Longrightarrow> c \<noteq> 96"
  by (auto simp: isspace_def)

lemma split_fence_no_backtick: "96 \<notin> set s \<Longrightarrow> split_fence cur s = [cur @ s]"
  by (induction s arbitrary: cur) auto

lemma strip_blank: "\<forall>c\<in>set s. isspace c \<Longrightarrow> strip s = []"
proof -
  assume "\<forall>c\<in>set s. isspace c"
  then have blank: "dropWhile isspace s = []" by simp
  show ?thesis unfolding strip_def blank by simp
qed

lemma segments_blank:
  assumes "\<forall>c\<in>set full. isspace c"
  shows "segments full = []"
proof -
  from assms have "96 \<notin> set full" using space_not_backtick by blast
  then have "py_split full = [full]" by (simp add: py_split_def split_fence_no_backtick)
  with assms show ?thesis by (simp add: segments_def strip_blank)
qed

text \<open>
  What the loop does give: among the segments it keeps, the roles alternate, starting with
  not code.
\<close>

lemma create_boxes_roles:
  "k < length (create_boxes b parts) \<Longrightarrow> snd (create_boxes b parts ! k) = (b \<noteq> odd k)"
proof (induction parts arbitrary: b k)
  case Nil
  then show ?case by simp
next
  case (Cons part parts)
  show ?case
  proof (cases "strip part = []")
    case True
    with Cons show ?thesis by simp
  next
    case False
    with Cons show ?thesis by (cases k) auto
  qed
qed

lemma segments_roles: "k < length (segments t) \<Longrightarrow> snd (segments t ! k) = odd k"
  using create_boxes_roles[of k False "py_split t"] by (simp add: segments_def)

text \<open>
  C1. The splitter is to give each piece its role by its position among the pieces, so that
  a reply that is one fenced block comes out as one code segment. The code negates
  \<^verbatim>\<open>is_code\<close> only when it keeps a piece: the empty piece before the opening fence does not
  count, and the fenced text comes out as not code.
\<close>

theorem segments_only_code:
  "segments (ustr ''```only code```'') = [(ustr ''only code'', False)]"
  by (simp add: segments_def py_split_def text_defs)

text \<open>
  C9. A reply that is empty or all whitespace has no segments, and when its
  \<^verbatim>\<open>split_and_create_boxes\<close> runs, the children of \<^verbatim>\<open>messages_box\<close> are the earlier ones
  without the placeholder: no message is appended.
\<close>

theorem blank_reply_adds_nothing:
  assumes "\<forall>c\<in>set (full_response (threads s ! i)). isspace c"
      and "idle s = Split_and_create_boxes i # q" and "i < length (threads s)"
  shows "segments (full_response (threads s ! i)) = [] \<and>
         messages_box (exec Dispatch s) =
           filter (\<lambda>b. Some (wid b) \<noteq> live_box (threads s ! i)) (messages_box s)"
  using assms segments_blank[OF assms(1)]
  by (simp add: dispatch_def split_and_create_boxes_def save_history_def Let_def)

theorem blank_reply_adds_nothing_witness:
  "messages_box (exec Dispatch (run
      [Type (ustr ''hi''), Send, Work 0 Go, Work 0 (Respond 200),
       Work 0 (Line (Parsed (JObj [(ustr ''response'', JStr (ustr ''  ''))]))),
       Work 0 Eof, Dispatch] (new_window Absent))) = [MessageBox 0 (ustr ''hi'') True False]"
proof -
  let ?s = "run [Type (ustr ''hi''), Send, Work 0 Go, Work 0 (Respond 200),
       Work 0 (Line (Parsed (JObj [(ustr ''response'', JStr (ustr ''  ''))]))),
       Work 0 Eof, Dispatch] (new_window Absent)"
  have thr: "threads ?s = [\<lparr>prompt = ustr ''hi'', pc = Finished, live_box = Some 1,
      full_response = ustr ''  '', response = Some 200, e_var = None\<rparr>]"
    and q: "idle ?s = [Split_and_create_boxes 0]"
    and boxes: "messages_box ?s = [MessageBox 0 (ustr ''hi'') True False,
      MessageBox 1 (ustr ''  '') False False]"
    by (simp_all add: model_defs text_defs)
  have blank: "\<forall>c\<in>set (full_response (threads ?s ! 0)). isspace c"
    unfolding thr by (simp add: text_defs)
  have len: "0 < length (threads ?s)" unfolding thr by simp
  from blank_reply_adds_nothing[OF blank q len] show ?thesis
    unfolding boxes thr by (simp add: MessageBox_def)
qed

section \<open>Sending\<close>

text \<open>
  C10. Sending while the entry is empty or holds only whitespace changes nothing: no box is
  added, the history file is not written, no thread is started, the entry keeps its text.
\<close>

theorem blank_send_is_noop:
  assumes "\<forall>c\<in>set (entry s). isspace c"
  shows "exec Send s = s"
  using assms by (simp add: on_send_def strip_blank)

theorem blank_send_is_noop_witness:
  "exec Send (exec (Type (ustr ''  '')) (new_window Absent)) = exec (Type (ustr ''  '')) (new_window Absent)"
proof -
  have "\<forall>c\<in>set (entry (exec (Type (ustr ''  '')) (new_window Absent))). isspace c"
    by (simp add: text_defs)
  from blank_send_is_noop[OF this] show ?thesis .
qed

text \<open>
  C2, as the code has it. \<^verbatim>\<open>on_send\<close> looks at the entry's text only: whenever it is not
  blank the send is accepted, whatever sessions are live. The user message is appended and
  saved, the entry is cleared, and one more thread is started, so there is one more live
  session than before.
\<close>

theorem send_always_starts_session:
  assumes "strip (entry s) \<noteq> []"
  shows "threads (exec Send s) = threads s @ [new_thread (strip (entry s))] \<and>
         length (filter live (threads (exec Send s))) = Suc (length (filter live (threads s))) \<and>
         messages_box (exec Send s) =
           messages_box s @ [MessageBox (next_wid s) (strip (entry s)) True False] \<and>
         storage (exec Send s) = Stored (JArr (map dump (messages_box (exec Send s)))) \<and>
         entry (exec Send s) = []"
  using assms
  by (simp add: on_send_def add_message_def save_history_def Let_def live_def new_thread_def)

theorem send_always_starts_session_witness:
  "threads (exec Send (exec (Type (ustr ''b'')) (run [Type (ustr ''a''), Send] (new_window Absent)))) =
     [new_thread (ustr ''a''), new_thread (ustr ''b'')]"
proof -
  let ?s = "exec (Type (ustr ''b'')) (run [Type (ustr ''a''), Send] (new_window Absent))"
  have stripped: "strip (entry ?s) = ustr ''b''" by (simp add: text_defs)
  then have "strip (entry ?s) \<noteq> []" by (simp add: ustr_def)
  from send_always_starts_session[OF this] have
    "threads (exec Send ?s) = threads ?s @ [new_thread (strip (entry ?s))]" by blast
  moreover have "threads ?s = [new_thread (ustr ''a'')]"
    by (simp add: on_send_def add_message_def save_history_def Let_def new_window_def text_defs)
  ultimately show ?thesis using stripped by simp
qed

text \<open>
  C2 as stated fails: a second send while the first session is reading its stream is
  accepted, and two sessions are live at once.
\<close>

theorem two_live_sessions:
  "length (filter live (threads (run
     [Type (ustr ''a''), Send, Work 0 Go, Work 0 (Respond 200),
      Type (ustr ''b''), Send, Work 1 Go, Work 1 (Respond 200)] (new_window Absent)))) = 2"
  by (simp add: model_defs live_def text_defs)

section \<open>The history file\<close>

lemma load_box_dump: "load_box w (dump b) = Inr (MessageBox w (label b) (is_user b) (is_code b))"
  by (simp add: load_box_def dump_def ustr_def)

lemma load_boxes_dump:
  "\<exists>bs'. load_boxes w (map dump bs) = Inr bs' \<and> map message bs' = map message bs"
proof (induction bs arbitrary: w)
  case Nil
  show ?case by simp
next
  case (Cons b bs)
  from Cons.IH[of "Suc w"] obtain bs' where
    "load_boxes (Suc w) (map dump bs) = Inr bs'" "map message bs' = map message bs" by blast
  moreover have "message (MessageBox w (label b) (is_user b) (is_code b)) = message b"
    by (simp add: message_def MessageBox_def)
  ultimately show ?case by (simp add: load_box_dump)
qed

text \<open>
  C7. After \<^verbatim>\<open>save_history\<close>, a new window set up on the file it wrote loads without error
  and shows the same messages (text, \<^verbatim>\<open>is_user\<close>, \<^verbatim>\<open>is_code\<close>) in the same order.
\<close>

theorem save_load_round_trip:
  "\<exists>s'. setup_window (storage (save_history s)) = Inr s' \<and>
        map message (messages_box s') = map message (messages_box s)"
proof -
  obtain bs' where "load_boxes 0 (map dump (messages_box s)) = Inr bs'"
    "map message bs' = map message (messages_box s)" using load_boxes_dump by blast
  then show ?thesis
    by (simp add: setup_window_def load_history_def new_window_def save_history_def)
qed

lemma holds_strE: "holds_str x \<Longrightarrow> \<exists>t. x = Some (JStr t)"
  by (cases x rule: holds_str.cases) simp_all

lemma holds_boolE: "holds_bool x \<Longrightarrow> \<exists>b. x = Some (JBool b)"
  by (cases x rule: holds_bool.cases) simp_all

lemma entry_format_loads:
  assumes "entry_format m"
  shows "\<exists>b. load_box w m = Inr b"
proof -
  from assms obtain kvs where m: "m = JObj kvs" by (cases m) auto
  with assms obtain t u where "map_of kvs (ustr ''text'') = Some (JStr t)"
    "map_of kvs (ustr ''is_user'') = Some (JBool u)"
    using holds_strE holds_boolE by fastforce
  with m show ?thesis by (simp add: load_box_def)
qed

lemma history_entries_load: "list_all entry_format xs \<Longrightarrow> \<exists>bs. load_boxes w xs = Inr bs"
proof (induction xs arbitrary: w)
  case Nil
  show ?case by simp
next
  case (Cons m xs)
  from Cons.prems obtain b where "load_box w m = Inr b" using entry_format_loads by auto
  moreover from Cons obtain bs where "load_boxes (Suc w) xs = Inr bs" by auto
  ultimately show ?case by simp
qed

text \<open>
  C8. A missing file is no error: \<^verbatim>\<open>load_history\<close> returns with nothing added, and a new
  window set up without a file has an empty log. When \<^verbatim>\<open>load_history\<close> fails, the file
  exists and is unreadable, or is not JSON, or holds JSON that is not a history in the
  persisted format.
\<close>

theorem load_history_errors:
  "(storage s = Absent \<longrightarrow> load_history s = Inr s) \<and>
   (setup_window Absent = Inr (new_window Absent) \<and> messages_box (new_window Absent) = []) \<and>
   (load_history s = Inl err \<longrightarrow>
      storage s = Unreadable \<or> storage s = Garbage \<or>
      (\<exists>j. storage s = Stored j \<and> \<not> history_format j))"
proof (intro conjI impI)
  assume fails: "load_history s = Inl err"
  show "storage s = Unreadable \<or> storage s = Garbage \<or>
        (\<exists>j. storage s = Stored j \<and> \<not> history_format j)"
  proof (cases "storage s")
    case (Stored j)
    have "\<not> history_format j"
    proof
      assume "history_format j"
      then obtain xs where j: "j = JArr xs" and "list_all entry_format xs" by (cases j) auto
      then obtain bs where "load_boxes (next_wid s) xs = Inr bs"
        using history_entries_load by blast
      with j Stored fails show False by (simp add: load_history_def)
    qed
    with Stored show ?thesis by simp
  next
    case Absent
    with fails show ?thesis by (simp add: load_history_def)
  qed simp_all
qed (simp_all add: load_history_def setup_window_def new_window_def)

theorem load_history_errors_witness:
  "load_history (new_window Absent) = Inr (new_window Absent) \<and>
   load_history (new_window Garbage) = Inl JSONDecodeError \<and>
   storage (new_window Garbage) = Garbage"
  using load_history_errors[of "new_window Absent"]
    load_history_errors[of "new_window Garbage" JSONDecodeError]
  by (simp add: new_window_def load_history_def)

section \<open>The effect of a step\<close>

lemma handle_line_append:
  "handle_line full l =
     (case handle_line [] l of
        Inl m \<Rightarrow> Inl m | Inr None \<Rightarrow> Inr None | Inr (Some d) \<Rightarrow> Inr (Some (full @ d)))"
proof (cases l)
  case (Parsed chunk)
  show ?thesis
  proof (cases "chunk_response chunk")
    case (Inl m)
    with Parsed show ?thesis by simp
  next
    case (Inr r)
    show ?thesis
    proof (cases r)
      case None
      with Inr Parsed show ?thesis by simp
    next
      case (Some v)
      with Inr Parsed show ?thesis by (cases v) simp_all
    qed
  qed
qed simp_all

lemma threads_append_boxes [simp]: "threads (append_boxes segs s) = threads s"
  by (induction segs arbitrary: s) simp_all

lemma idle_append_boxes [simp]: "idle (append_boxes segs s) = idle s"
  by (induction segs arbitrary: s) simp_all

lemma threads_call [simp]: "threads (call c s) = threads s"
  by (cases c)
    (simp_all add: update_def split_and_create_boxes_def lambda_http_def lambda_exc_def
      add_message_def save_history_def Let_def split: option.splits)

lemma idle_call [simp]: "idle (call c s) = idle s"
  by (cases c)
    (simp_all add: update_def split_and_create_boxes_def lambda_http_def lambda_exc_def
      add_message_def save_history_def Let_def split: option.splits)

lemma threads_dispatch [simp]: "threads (dispatch s) = threads s"
  by (simp add: dispatch_def split: list.splits)

lemma idle_dispatch [simp]: "idle (dispatch s) = tl (idle s)"
  by (simp add: dispatch_def split: list.splits)

lemma idle_on_send [simp]: "idle (on_send s) = idle s"
  by (simp add: on_send_def add_message_def save_history_def Let_def)

lemma threads_on_send:
  "threads (on_send s) =
     (if strip (entry s) \<noteq> [] then threads s @ [new_thread (strip (entry s))] else threads s)"
  by (simp add: on_send_def add_message_def save_history_def Let_def)

lemma threads_delete [simp]: "threads (on_delete_clicked k s) = threads s"
  by (simp add: on_delete_clicked_def save_history_def)

lemma idle_delete [simp]: "idle (on_delete_clicked k s) = idle s"
  by (simp add: on_delete_clicked_def save_history_def)

lemma threads_edit [simp]: "threads (on_edit_clicked k s) = threads s"
  by (simp add: on_edit_clicked_def split: list.splits)

lemma idle_edit [simp]: "idle (on_edit_clicked k s) = idle s"
  by (simp add: on_edit_clicked_def split: list.splits)

text \<open>What one step of a worker does to the threads and to the queue.\<close>

lemma work_effect:
  assumes "j < length (threads s)"
  obtains
    (quiet) "threads (work j ev s) = threads s" "idle (work j ev s) = idle s"
      "reads j (Work j ev) s = []"
  | (moved) t' where "threads (work j ev s) = (threads s)[j := t']" "idle (work j ev s) = idle s"
      "live (threads s ! j)" "live t'"
      "full_response t' = full_response (threads s ! j) \<or>
       pc (threads s ! j) = Started \<and> full_response t' = []"
      "pc t' \<noteq> Started" "reads j (Work j ev) s = []"
  | (ended) t' where "threads (work j ev s) = (threads s)[j := t']" "idle (work j ev s) = idle s"
      "pc (threads s ! j) = Handling" "pc t' = Finished"
      "full_response t' = full_response (threads s ! j)" "reads j (Work j ev) s = []"
  | (chunk) t' l where "ev = Line l" "pc (threads s ! j) = Reading"
      "threads (work j ev s) = (threads s)[j := t']" "idle (work j ev s) = idle s @ [Update j]"
      "pc t' = Reading" "full_response t' = full_response (threads s ! j) @ text_of l"
  | (final) t' c where "threads (work j ev s) = (threads s)[j := t']"
      "idle (work j ev s) = idle s @ [c]" "owner c = j" "c \<noteq> Update j"
      "live (threads s ! j)" "\<not> live t'" "pc (threads s ! j) \<noteq> Started"
      "full_response t' = full_response (threads s ! j)" "reads j (Work j ev) s = []"
proof -
  let ?t = "threads s ! j"
  note defs = work_def set_thread_def idle_add_def raise_in_def live_def
  have raised: ?thesis if "pc ?t = Requesting \<or> pc ?t = Reading"
    and "work j ev s = raise_in j msg ?t s" and "reads j (Work j ev) s = []" for msg
    using that by (intro final[of "?t\<lparr>e_var := Some msg, pc := Handling\<rparr>" "Lambda_exc j"]) (auto simp: defs)
  show ?thesis
  proof (cases ev)
    case Go
    show ?thesis
    proof (cases "pc ?t")
      case Started
      with Go assms show ?thesis
        by (intro moved[of "?t\<lparr>live_box := Some (next_wid s), full_response := [], pc := Requesting\<rparr>"])
          (simp_all add: defs)
    next
      case Handling
      with Go assms show ?thesis
        by (intro ended[of "?t\<lparr>e_var := None, pc := Finished\<rparr>"]) (simp_all add: defs)
    qed (use Go assms in \<open>simp_all add: quiet defs\<close>)
  next
    case (Refuse msg)
    show ?thesis
    proof (cases "pc ?t = Requesting")
      case True
      with Refuse assms show ?thesis by (intro raised[of msg]) (simp_all add: work_def)
    next
      case False
      with Refuse assms show ?thesis by (simp add: quiet defs)
    qed
  next
    case (Respond status_code)
    show ?thesis
    proof (cases "pc ?t = Requesting")
      case True
      show ?thesis
      proof (cases "ok status_code")
        case True
        with \<open>pc ?t = Requesting\<close> Respond assms show ?thesis
          by (intro moved[of "?t\<lparr>response := Some status_code, pc := Reading\<rparr>"])
            (simp_all add: defs)
      next
        case False
        with \<open>pc ?t = Requesting\<close> Respond assms show ?thesis
          by (intro final[of "?t\<lparr>response := Some status_code, pc := Finished\<rparr>" "Lambda_http j"])
            (simp_all add: defs)
      qed
    next
      case False
      with Respond assms show ?thesis by (simp add: quiet defs)
    qed
  next
    case (Line l)
    show ?thesis
    proof (cases "pc ?t = Reading")
      case True
      show ?thesis
      proof (cases "handle_line [] l")
        case (Inl msg)
        then have "handle_line (full_response ?t) l = Inl msg"
          by (subst handle_line_append) simp
        moreover from Inl have "text_of l = []" by (simp add: text_of_def)
        ultimately show ?thesis using True Line assms
          by (intro raised[of msg]) (simp_all add: work_def)
      next
        case (Inr r)
        show ?thesis
        proof (cases r)
          case None
          with Inr have "handle_line (full_response ?t) l = Inr None"
            by (subst handle_line_append) simp
          moreover from None Inr have "text_of l = []" by (simp add: text_of_def)
          ultimately show ?thesis using True Line assms by (simp add: quiet defs)
        next
          case (Some d)
          with Inr have "handle_line (full_response ?t) l = Inr (Some (full_response ?t @ d))"
            by (subst handle_line_append) simp
          moreover from Some Inr have "text_of l = d" by (simp add: text_of_def)
          ultimately show ?thesis using True Line assms
            by (intro chunk[of l "?t\<lparr>full_response := full_response ?t @ d\<rparr>"])
              (simp_all add: defs)
        qed
      qed
    next
      case False
      with Line assms show ?thesis by (simp add: quiet defs)
    qed
  next
    case Eof
    show ?thesis
    proof (cases "pc ?t = Reading")
      case True
      with Eof assms show ?thesis
        by (intro final[of "?t\<lparr>pc := Finished\<rparr>" "Split_and_create_boxes j"]) (simp_all add: defs)
    next
      case False
      with Eof assms show ?thesis by (simp add: quiet defs)
    qed
  next
    case (Broken msg)
    show ?thesis
    proof (cases "pc ?t = Reading")
      case True
      with Broken assms show ?thesis by (intro raised[of msg]) (simp_all add: work_def)
    next
      case False
      with Broken assms show ?thesis by (simp add: quiet defs)
    qed
  qed
qed

section \<open>The worker and its callbacks\<close>

lemma run_append: "run (xs @ ys) s = run ys (run xs s)"
  by (induction xs arbitrary: s) simp_all

lemma trace_append: "trace (xs @ ys) s = trace xs s @ trace ys (run xs s)"
  by (induction xs arbitrary: s) simp_all

text \<open>
  C3. Every change of the view is to be made by a callback on the presentation thread. The
  first step of the worker appends the placeholder to \<^verbatim>\<open>messages_box\<close> itself
  (lines 270 and 271): the box is there after the worker's step, with nothing in the queue.
\<close>

theorem worker_appends_placeholder_itself:
  "messages_box (exec (Work 0 Go) (run [Type (ustr ''hi''), Send] (new_window Absent))) =
     messages_box (run [Type (ustr ''hi''), Send] (new_window Absent)) @
       [MessageBox 1 (ustr ''...'') False False] \<and>
   idle (exec (Work 0 Go) (run [Type (ustr ''hi''), Send] (new_window Absent))) = []"
  by (simp add: model_defs text_defs)

text \<open>
  C5 as stated fails. After a response with status 500 and the callback that reports it,
  the placeholder is still a child of \<^verbatim>\<open>messages_box\<close> and the file holds the user message
  only. After \<^verbatim>\<open>requests.post\<close> raises, the worker leaves the \<^verbatim>\<open>except\<close> block before its
  lambda runs, and the lambda adds no message at all.
\<close>

theorem stream_error_claim_fails:
  "map label (messages_box (run
      [Type (ustr ''hi''), Send, Work 0 Go, Work 0 (Respond 500), Dispatch] (new_window Absent))) =
     [ustr ''hi'', ustr ''...'', ustr ''Error: HTTP 500''] \<and>
   storage (run
      [Type (ustr ''hi''), Send, Work 0 Go, Work 0 (Respond 500), Dispatch] (new_window Absent)) =
     Stored (JArr [dump (MessageBox 0 (ustr ''hi'') True False)]) \<and>
   map label (messages_box (run
      [Type (ustr ''hi''), Send, Work 0 Go, Work 0 (Refuse (ustr ''refused'')), Work 0 Go, Dispatch]
      (new_window Absent))) =
     [ustr ''hi'', ustr ''...''] \<and>
   idle (run
      [Type (ustr ''hi''), Send, Work 0 Go, Work 0 (Refuse (ustr ''refused'')), Work 0 Go, Dispatch]
      (new_window Absent)) = []"
  by (simp add: model_defs text_defs str_nat.simps)

lemma finished_stays:
  assumes "i < length (threads s)" and "pc (threads s ! i) = Finished"
  shows "i < length (threads (exec a s)) \<and> threads (exec a s) ! i = threads s ! i"
proof (cases a)
  case (Work j ev)
  show ?thesis
  proof (cases "j < length (threads s)")
    case True
    from assms Work True show ?thesis
      by (cases rule: work_effect[OF True, of ev]) (auto simp: nth_list_update live_def)
  next
    case False
    with assms Work show ?thesis by (simp add: work_def)
  qed
next
  case Send
  with assms show ?thesis by (simp add: threads_on_send nth_append)
qed (use assms in simp_all)

lemma finished_stays_run:
  "i < length (threads s) \<Longrightarrow> pc (threads s ! i) = Finished \<Longrightarrow>
   i < length (threads (run acts s)) \<and> threads (run acts s) ! i = threads s ! i"
proof (induction acts arbitrary: s)
  case Nil
  then show ?case by simp
next
  case (Cons a acts)
  from finished_stays[OF Cons.prems, of a]
  have "i < length (threads (exec a s))" and same: "threads (exec a s) ! i = threads s ! i"
    by simp_all
  with Cons.prems(2) Cons.IH[of "exec a s"] show ?case by simp
qed

text \<open>
  C5, as the code has it. On a status for which \<^verbatim>\<open>response.ok\<close> is false the worker posts
  one callback, changes neither the view nor the file, and is over. Whatever happens in
  between, when that callback is at the head of the queue and runs, exactly one assistant
  message \<^verbatim>\<open>Error: HTTP\<close> with the status is appended, and the file is not written:
  \<^verbatim>\<open>add_message\<close> saves for a user message only.
\<close>

theorem http_error_adds_one_message:
  assumes "i < length (threads s)" and "pc (threads s ! i) = Requesting"
    and "\<not> ok status_code"
    and "s1 = exec (Work i (Respond status_code)) s"
    and "s2 = run acts s1" and "idle s2 = Lambda_http i # q"
  shows "idle s1 = idle s @ [Lambda_http i] \<and>
         messages_box s1 = messages_box s \<and> storage s1 = storage s \<and>
         \<not> live (threads s1 ! i) \<and>
         messages_box (exec Dispatch s2) =
           messages_box s2 @
             [MessageBox (next_wid s2) (ustr ''Error: HTTP '' @ str_nat status_code) False False] \<and>
         storage (exec Dispatch s2) = storage s2 \<and>
         idle (exec Dispatch s2) = q"
proof -
  from assms(1-4) have posted: "idle s1 = idle s @ [Lambda_http i]"
    and view: "messages_box s1 = messages_box s" "storage s1 = storage s"
    and len: "i < length (threads s1)"
    and fin: "pc (threads s1 ! i) = Finished"
    and status: "response (threads s1 ! i) = Some status_code"
    by (simp_all add: work_def idle_add_def set_thread_def)
  from finished_stays_run[OF len fin, of acts] assms(5) status
  have len2: "i < length (threads s2)" and status2: "response (threads s2 ! i) = Some status_code"
    by simp_all
  from assms(6) len2 status2
  have "messages_box (exec Dispatch s2) =
           messages_box s2 @
             [MessageBox (next_wid s2) (ustr ''Error: HTTP '' @ str_nat status_code) False False]"
    and "storage (exec Dispatch s2) = storage s2" and "idle (exec Dispatch s2) = q"
    by (simp_all add: dispatch_def lambda_http_def add_message_def)
  with posted view fin show ?thesis by (simp add: live_def)
qed

theorem http_error_adds_one_message_witness:
  "map label (messages_box (exec Dispatch (run [Type (ustr ''x''), Dispatch]
      (exec (Work 0 (Respond 500))
         (run [Type (ustr ''hi''), Send, Work 0 Go, Type (ustr ''yo''), Send, Work 1 Go,
               Work 1 (Respond 200),
               Work 1 (Line (Parsed (JObj [(ustr ''response'', JStr (ustr ''a''))])))]
            (new_window Absent)))))) =
   [ustr ''hi'', ustr ''...'', ustr ''yo'', ustr ''a'', ustr ''Error: HTTP 500'']"
proof -
  let ?s = "run [Type (ustr ''hi''), Send, Work 0 Go, Type (ustr ''yo''), Send, Work 1 Go,
               Work 1 (Respond 200),
               Work 1 (Line (Parsed (JObj [(ustr ''response'', JStr (ustr ''a''))])))]
            (new_window Absent)"
  let ?s1 = "exec (Work 0 (Respond 500)) ?s"
  let ?s2 = "run [Type (ustr ''x''), Dispatch] ?s1"
  have len: "0 < length (threads ?s)" and req: "pc (threads ?s ! 0) = Requesting"
    and bad: "\<not> ok 500"
    and head: "idle ?s2 = Lambda_http 0 # []"
    and boxes: "map label (messages_box ?s2) = [ustr ''hi'', ustr ''...'', ustr ''yo'', ustr ''a'']"
    by (simp_all add: model_defs text_defs)
  have digits: "str_nat 500 = ustr ''500''" by (simp add: str_nat.simps ustr_def)
  from http_error_adds_one_message[OF len req bad refl refl head]
  have "messages_box (exec Dispatch ?s2) =
          messages_box ?s2 @ [MessageBox (next_wid ?s2) (ustr ''Error: HTTP '' @ str_nat 500) False False]"
    by blast
  then have "map label (messages_box (exec Dispatch ?s2)) =
      map label (messages_box ?s2) @ [ustr ''Error: HTTP '' @ str_nat 500]"
    by (simp add: MessageBox_def)
  then show ?thesis unfolding boxes digits by (simp add: ustr_def)
qed

text \<open>
  C6 as stated fails. Only JSONDecodeError is caught inside the loop. A line that is JSON but
  not an object (here the number 5), or one on which \<^verbatim>\<open>json.loads\<close> raises another exception
  (bytes that are not UTF-8), ends the session: the chunk and the end of the stream that follow
  do nothing, no \<^verbatim>\<open>update\<close> and no \<^verbatim>\<open>split_and_create_boxes\<close> ever runs, and the text stays
  empty.
\<close>

theorem malformed_line_ends_session:
  "callbacks 0
      [Type (ustr ''hi''), Send, Work 0 Go, Work 0 (Respond 200),
       Work 0 (Line (Parsed (JInt 5))),
       Work 0 (Line (Parsed (JObj [(ustr ''response'', JStr (ustr ''a''))]))),
       Work 0 Eof, Dispatch, Dispatch]
      (new_window Absent) = [OnError 0] \<and>
   callbacks 0
      [Type (ustr ''hi''), Send, Work 0 Go, Work 0 (Respond 200),
       Work 0 (Line (Undecodable (ustr ''invalid start byte''))),
       Work 0 (Line (Parsed (JObj [(ustr ''response'', JStr (ustr ''a''))]))),
       Work 0 Eof, Dispatch, Dispatch]
      (new_window Absent) = [OnError 0] \<and>
   full_response (threads (run
      [Type (ustr ''hi''), Send, Work 0 Go, Work 0 (Respond 200),
       Work 0 (Line (Parsed (JInt 5))),
       Work 0 (Line (Parsed (JObj [(ustr ''response'', JStr (ustr ''a''))]))),
       Work 0 Eof, Dispatch, Dispatch]
      (new_window Absent)) ! 0) = []"
  by (simp add: callbacks_def model_defs text_defs)

text \<open>
  C6, as the code has it. A line on which \<^verbatim>\<open>json.loads\<close> raises JSONDecodeError is skipped:
  the step changes nothing, so a run with such a line goes on, and shows the same callbacks,
  as the run without it. A thread that is reading still is, with the same text; the next
  chunk with a text is appended and its \<^verbatim>\<open>update\<close> posted, and the end of the stream posts
  \<^verbatim>\<open>split_and_create_boxes\<close>.
\<close>

theorem garbled_line_is_skipped:
  "exec (Work i (Line Garbled)) s = s \<and>
   run (before @ Work i (Line Garbled) # after) s0 = run (before @ after) s0 \<and>
   trace (before @ Work i (Line Garbled) # after) s0 = trace (before @ after) s0 \<and>
   (i < length (threads s) \<and> pc (threads s ! i) = Reading \<longrightarrow>
      pc (threads (exec (Work i (Line Garbled)) s) ! i) = Reading \<and>
      full_response (threads (exec (Work i (Line Garbled)) s) ! i) = full_response (threads s ! i) \<and>
      idle (exec (Work i (Line (Parsed (JObj [(ustr ''response'', JStr d)]))))
              (exec (Work i (Line Garbled)) s)) = idle s @ [Update i] \<and>
      full_response (threads (exec (Work i (Line (Parsed (JObj [(ustr ''response'', JStr d)]))))
              (exec (Work i (Line Garbled)) s)) ! i) = full_response (threads s ! i) @ d \<and>
      idle (exec (Work i Eof) (exec (Work i (Line Garbled)) s)) =
        idle s @ [Split_and_create_boxes i])"
proof -
  have skip: "\<And>s. exec (Work i (Line Garbled)) s = s" by (simp add: work_def)
  show ?thesis
    by (simp add: skip run_append trace_append)
      (simp add: work_def idle_add_def set_thread_def)
qed

theorem garbled_line_is_skipped_witness:
  "idle (exec (Work 0 (Line (Parsed (JObj [(ustr ''response'', JStr (ustr ''a''))]))))
      (exec (Work 0 (Line Garbled))
         (run [Type (ustr ''hi''), Send, Work 0 Go, Work 0 (Respond 200)] (new_window Absent)))) =
   [Update 0]"
proof -
  let ?s = "run [Type (ustr ''hi''), Send, Work 0 Go, Work 0 (Respond 200)] (new_window Absent)"
  have reading: "0 < length (threads ?s) \<and> pc (threads ?s ! 0) = Reading"
    and no_idle: "idle ?s = []"
    by (simp_all add: model_defs text_defs)
  from garbled_line_is_skipped[where i = 0 and s = ?s and before = "[]" and after = "[]"
      and ?s0.0 = ?s and d = "ustr ''a''"] reading
  have "idle (exec (Work 0 (Line (Parsed (JObj [(ustr ''response'', JStr (ustr ''a''))]))))
          (exec (Work 0 (Line Garbled)) ?s)) = idle ?s @ [Update 0]"
    by blast
  then show ?thesis unfolding no_idle by simp
qed

section \<open>The text the callbacks see\<close>

lemma fifo_tl: "fifo fin (c # q) \<Longrightarrow> fifo fin q"
  by (cases c) auto

lemma fifo_snoc: "fifo False q \<Longrightarrow> fin \<or> c = Update (owner c) \<Longrightarrow> fifo fin (q @ [c])"
proof (induction q)
  case Nil
  then show ?case by (cases c) simp_all
next
  case (Cons b q)
  then show ?case by (cases b) simp_all
qed

lemma owned_exec: "owned s \<Longrightarrow> owned (exec a s)"
proof (cases a)
  case (Work j ev)
  assume "owned s"
  show ?thesis
  proof (cases "j < length (threads s)")
    case True
    from \<open>owned s\<close> Work True show ?thesis
      by (cases rule: work_effect[OF True, of ev]) (auto simp: owned_def)
  next
    case False
    with \<open>owned s\<close> Work show ?thesis by (simp add: work_def)
  qed
next
  case Dispatch
  assume "owned s"
  with Dispatch show ?thesis by (cases "idle s") (auto simp: owned_def)
next
  case Send
  assume "owned s"
  with Send show ?thesis by (auto simp: owned_def threads_on_send)
qed (simp_all add: owned_def)

lemma unread_exec: "unread i s \<Longrightarrow> unread i (exec a s)"
proof (cases a)
  case (Work j ev)
  assume "unread i s"
  show ?thesis
  proof (cases "j < length (threads s)")
    case True
    from \<open>unread i s\<close> Work True show ?thesis
      by (cases rule: work_effect[OF True, of ev]) (auto simp: unread_def nth_list_update live_def)
  next
    case False
    with \<open>unread i s\<close> Work show ?thesis by (simp add: work_def)
  qed
next
  case Send
  assume "unread i s"
  with Send show ?thesis by (auto simp: unread_def threads_on_send nth_append new_thread_def)
qed (simp_all add: unread_def)

lemma over_on_send [simp]: "over i (on_send s) = over i s"
  by (auto simp: over_def threads_on_send nth_append live_def new_thread_def)

lemma queued_work:
  assumes "queued i s" and "j < length (threads s)"
  shows "queued i (work j ev s)"
proof (cases "i = j")
  case False
  with assms(2) have "over i (work j ev s) = over i s \<and> pending i (work j ev s) = pending i s"
    by (cases rule: work_effect[OF assms(2), of ev]) (auto simp: over_def pending_def)
  with assms(1) show ?thesis by (simp add: queued_def)
next
  case True
  from assms(2) show ?thesis
  proof (cases rule: work_effect[where ev = ev])
    case quiet
    with assms True show ?thesis by (simp add: queued_def over_def pending_def)
  next
    case (moved t')
    with assms True show ?thesis by (simp add: queued_def over_def pending_def)
  next
    case (ended t')
    with assms True show ?thesis by (simp add: queued_def over_def pending_def live_def)
  next
    case (chunk t' l)
    with assms True have "fifo False (pending i s)"
      by (simp add: queued_def over_def live_def)
    then have "fifo False (pending i s @ [Update j])" by (rule fifo_snoc) simp
    with chunk assms True show ?thesis by (simp add: queued_def over_def pending_def live_def)
  next
    case (final t' c)
    with assms True have "fifo False (pending i s)"
      by (simp add: queued_def over_def)
    then have "fifo True (pending i s @ [c])" by (rule fifo_snoc) simp
    with final assms True show ?thesis by (simp add: queued_def over_def pending_def)
  qed
qed

lemma queued_exec:
  assumes "owned s" and "queued i s"
  shows "queued i (exec a s)"
proof (cases a)
  case (Work j ev)
  show ?thesis
  proof (cases "j < length (threads s)")
    case True
    with assms Work show ?thesis by (simp add: queued_work)
  next
    case False
    with assms Work show ?thesis by (simp add: work_def)
  qed
next
  case Dispatch
  have same: "over i (dispatch s) = over i s" by (simp add: over_def)
  show ?thesis
  proof (cases "idle s")
    case Nil
    with assms Dispatch same show ?thesis by (simp add: queued_def pending_def)
  next
    case (Cons c q)
    then have "pending i s = pending i (dispatch s) \<or> pending i s = c # pending i (dispatch s)"
      by (simp add: pending_def)
    with assms(2) have "fifo (over i s) (pending i (dispatch s))"
      unfolding queued_def by (auto dest: fifo_tl)
    with Dispatch same show ?thesis by (simp add: queued_def)
  qed
next
  case Send
  with assms show ?thesis by (simp add: queued_def pending_def)
qed (use assms in \<open>simp_all add: queued_def pending_def over_def\<close>)

lemma reads_other: "i \<noteq> j \<Longrightarrow> reads i (Work j ev) s = []"
  by (cases ev) simp_all

lemma accumulated_exec:
  assumes "unread i s"
  shows "accumulated i (exec a s) = accumulated i s @ reads i a s"
proof (cases a)
  case (Work j ev)
  show ?thesis
  proof (cases "j < length (threads s)")
    case True
    show ?thesis
    proof (cases "i = j")
      case False
      with True Work show ?thesis
        by (cases rule: work_effect[OF True, of ev]) (auto simp: accumulated_def reads_other)
    next
      case same: True
      from assms True Work same show ?thesis
        by (cases rule: work_effect[OF True, of ev]) (auto simp: accumulated_def unread_def)
    qed
  next
    case False
    with Work show ?thesis by (cases ev) (auto simp: work_def accumulated_def)
  qed
next
  case Send
  then show ?thesis by (auto simp: accumulated_def threads_on_send nth_append new_thread_def)
qed (simp_all add: accumulated_def)

lemma sound_exec: "sound i s \<Longrightarrow> sound i (exec a s)"
  by (simp add: sound_def owned_exec unread_exec queued_exec)

lemma sound_run: "sound i s \<Longrightarrow> sound i (run acts s)"
  by (induction acts arbitrary: s) (simp_all add: sound_exec)

lemma sound_start: "threads s = [] \<Longrightarrow> idle s = [] \<Longrightarrow> sound i s"
  by (simp add: sound_def owned_def unread_def queued_def pending_def)

lemma accumulated_run:
  "sound i s \<Longrightarrow> accumulated i (run acts s) = accumulated i s @ received i acts s"
proof (induction acts arbitrary: s)
  case Nil
  show ?case by simp
next
  case (Cons a acts)
  from Cons.prems have "sound i (exec a s)" by (rule sound_exec)
  from Cons.IH[OF this] Cons.prems show ?case
    by (simp add: accumulated_exec sound_def)
qed

lemma session_of_callback [simp]: "session_of (callback_of c s) = owner c"
  by (cases c) simp_all

lemma callbacks_Nil [simp]: "callbacks i [] s = []"
  by (simp add: callbacks_def)

lemma callbacks_Cons:
  "callbacks i (a # acts) s =
     filter (\<lambda>cb. session_of cb = i) (observe a s) @ callbacks i acts (exec a s)"
  by (simp add: callbacks_def)

text \<open>What a step shows to session \<open>i\<close>: nothing, or the callback of the closure at the head.\<close>

lemma observe_cases:
  obtains (silent) "filter (\<lambda>cb. session_of cb = i) (observe a s) = []"
  | (shown) c q where "a = Dispatch" "idle s = c # q" "owner c = i"
      "filter (\<lambda>cb. session_of cb = i) (observe a s) = [callback_of c s]"
proof (cases a)
  case Dispatch
  show ?thesis
  proof (cases "idle s")
    case Nil
    with Dispatch show ?thesis by (simp add: silent)
  next
    case (Cons c q)
    with Dispatch show ?thesis by (cases "owner c = i") (simp_all add: silent shown)
  qed
qed (simp_all add: silent)

lemma idle_work_grows: "set (idle s) \<subseteq> set (idle (work j ev s))"
proof (cases "j < length (threads s)")
  case True
  then show ?thesis by (cases rule: work_effect[where ev = ev]) auto
next
  case False
  then show ?thesis by (simp add: work_def)
qed

lemma reads_posts_update:
  assumes "reads i (Work j ev) s \<noteq> []"
  shows "Update i \<in> set (idle (work j ev s))"
proof -
  from assms have same: "i = j" using reads_other by blast
  from assms same have "j < length (threads s)" by (cases ev) (auto split: if_splits)
  then show ?thesis using assms same
    by (cases rule: work_effect[where ev = ev]) auto
qed

lemma still_shown:
  assumes "sound i s" and "filter (\<lambda>cb. session_of cb = i) (observe a s) = []"
    and "accumulated i s = t \<or> Update i \<in> set (idle s)"
  shows "accumulated i (exec a s) = t \<or> Update i \<in> set (idle (exec a s))"
proof -
  from assms(1) have acc: "accumulated i (exec a s) = accumulated i s @ reads i a s"
    by (simp add: accumulated_exec sound_def)
  show ?thesis
  proof (cases a)
    case (Work j ev)
    show ?thesis
    proof (cases "reads i a s = []")
      case True
      with acc assms(3) Work idle_work_grows[of s j ev] show ?thesis by auto
    next
      case False
      with Work show ?thesis by (simp add: reads_posts_update)
    qed
  next
    case Dispatch
    show ?thesis
    proof (cases "idle s")
      case Nil
      with Dispatch acc assms(3) show ?thesis by simp
    next
      case (Cons c q)
      with Dispatch assms(2) have "owner c \<noteq> i" by auto
      then have "c \<noteq> Update i" by auto
      with Cons Dispatch acc assms(3) show ?thesis by auto
    qed
  qed (use acc assms(3) in auto)
qed

lemma done_shows_pending:
  assumes "sound i s" and "accumulated i s = t \<or> Update i \<in> set (idle s)"
    and "callbacks i acts s = OnDone i t' # rest"
  shows "t' = t"
  using assms
proof (induction acts arbitrary: s)
  case Nil
  then show ?case by simp
next
  case (Cons a acts)
  show ?case
  proof (cases rule: observe_cases[of i a s])
    case silent
    with Cons.prems have "callbacks i acts (exec a s) = OnDone i t' # rest"
      by (simp add: callbacks_Cons)
    moreover from Cons.prems have "sound i (exec a s)" by (simp add: sound_exec)
    moreover from Cons.prems silent
    have "accumulated i (exec a s) = t \<or> Update i \<in> set (idle (exec a s))"
      by (intro still_shown)
    ultimately show ?thesis by (rule Cons.IH[rotated 2])
  next
    case (shown c q)
    with Cons.prems have cb: "callback_of c s = OnDone i t'" by (simp add: callbacks_Cons)
    then have c: "c = Split_and_create_boxes i" and t': "t' = full_response (threads s ! i)"
      by (cases c; simp)+
    from Cons.prems(1) shown c have "i < length (threads s)"
      by (auto simp: sound_def owned_def)
    with t' have acc: "accumulated i s = t'" by (simp add: accumulated_def)
    from Cons.prems(1) have "fifo (over i s) (pending i s)" by (simp add: sound_def queued_def)
    with shown c have "filter (\<lambda>c. owner c = i) q = []" by (simp add: pending_def)
    then have "Update i \<notin> set q" by (auto simp: filter_empty_conv)
    with shown c have "Update i \<notin> set (idle s)" by simp
    with Cons.prems(2) acc show ?thesis by simp
  qed
qed

lemma done_after_chunk:
  assumes "sound i s"
    and "callbacks i acts s = pre @ OnChunk i t # OnDone i t' # post"
  shows "t = t'"
  using assms
proof (induction acts arbitrary: s pre)
  case Nil
  then show ?case by simp
next
  case (Cons a acts)
  from Cons.prems have sound: "sound i (exec a s)" by (simp add: sound_exec)
  show ?case
  proof (cases rule: observe_cases[of i a s])
    case silent
    with Cons.prems have "callbacks i acts (exec a s) = pre @ OnChunk i t # OnDone i t' # post"
      by (simp add: callbacks_Cons)
    with sound show ?thesis by (rule Cons.IH)
  next
    case (shown c q)
    with Cons.prems have eq: "callback_of c s # callbacks i acts (exec a s) =
        pre @ OnChunk i t # OnDone i t' # post"
      by (simp add: callbacks_Cons)
    show ?thesis
    proof (cases pre)
      case Nil
      with eq have cb: "callback_of c s = OnChunk i t"
        and rest: "callbacks i acts (exec a s) = OnDone i t' # post" by simp_all
      from cb have t: "t = full_response (threads s ! i)" by (cases c) simp_all
      from Cons.prems(1) shown have "i < length (threads s)"
        by (auto simp: sound_def owned_def)
      with t shown have "accumulated i (exec a s) = t" by (simp add: accumulated_def)
      with sound rest have "t' = t" by (intro done_shows_pending[of i "exec a s" t acts t' post]) simp_all
      then show ?thesis by simp
    next
      case (Cons x pre')
      with eq have "callbacks i acts (exec a s) = pre' @ OnChunk i t # OnDone i t' # post"
        by simp
      with sound show ?thesis by (rule Cons.IH)
    qed
  qed
qed

lemma update_sets_label:
  assumes "idle s = Update i # q" and "i < length (threads s)"
    and "b \<in> set (messages_box (exec Dispatch s))" and "Some (wid b) = live_box (threads s ! i)"
  shows "label b = full_response (threads s ! i)"
  using assms by (auto simp: dispatch_def update_def Let_def)

text \<open>
  C4. In every run of a window that starts without threads and pending callbacks, for every
  session \<open>i\<close>: when its \<^verbatim>\<open>update\<close> runs, the text it shows (and sets as the placeholder's
  label) is all that the thread has appended so far, not the last piece; the accumulated
  text of a later state is that of an earlier state with something appended; and when
  \<^verbatim>\<open>split_and_create_boxes\<close> is the session's next callback after an \<^verbatim>\<open>update\<close>, it splits
  the text that \<^verbatim>\<open>update\<close> showed.
\<close>

theorem accumulated_text:
  assumes "threads s0 = []" and "idle s0 = []"
  shows "(observe Dispatch (run acts1 s0) = [OnChunk i t] \<longrightarrow>
            t = received i acts1 s0 \<and>
            (\<forall>b\<in>set (messages_box (run (acts1 @ [Dispatch]) s0)).
               Some (wid b) = live_box (threads (run acts1 s0) ! i) \<longrightarrow> label b = t)) \<and>
         accumulated i (run (acts1 @ acts2) s0) =
           accumulated i (run acts1 s0) @ received i acts2 (run acts1 s0) \<and>
         (callbacks i acts s0 = pre @ OnChunk i t1 # OnDone i t2 # post \<longrightarrow> t1 = t2)"
proof (intro conjI impI)
  from assms have start: "sound i s0" by (rule sound_start)
  then have mid: "sound i (run acts1 s0)" by (rule sound_run)
  from assms(1) have "accumulated i s0 = []" by (simp add: accumulated_def)
  with start have acc: "accumulated i (run acts1 s0) = received i acts1 s0"
    by (simp add: accumulated_run)
  show "accumulated i (run (acts1 @ acts2) s0) =
          accumulated i (run acts1 s0) @ received i acts2 (run acts1 s0)"
    using mid by (simp add: run_append accumulated_run)
  {
    assume "callbacks i acts s0 = pre @ OnChunk i t1 # OnDone i t2 # post"
    with start show "t1 = t2" by (rule done_after_chunk)
  }
  assume shown: "observe Dispatch (run acts1 s0) = [OnChunk i t]"
  then obtain c q where q: "idle (run acts1 s0) = c # q" and cb: "callback_of c (run acts1 s0) = OnChunk i t"
    by (cases "idle (run acts1 s0)") auto
  from cb have c: "c = Update i" and t: "t = full_response (threads (run acts1 s0) ! i)"
    by (cases c; simp)+
  from mid q c have len: "i < length (threads (run acts1 s0))"
    by (auto simp: sound_def owned_def)
  with t acc show "t = received i acts1 s0" by (simp add: accumulated_def)
  show "\<forall>b\<in>set (messages_box (run (acts1 @ [Dispatch]) s0)).
          Some (wid b) = live_box (threads (run acts1 s0) ! i) \<longrightarrow> label b = t"
    using update_sets_label[of "run acts1 s0" i q] q c len t by (auto simp: run_append)
qed

theorem accumulated_text_witness:
  "observe Dispatch (run
      [Type (ustr ''hi''), Send, Work 0 Go, Work 0 (Respond 200),
       Work 0 (Line (Parsed (JObj [(ustr ''response'', JStr (ustr ''a''))])))]
      (new_window Absent)) = [OnChunk 0 (ustr ''a'')] \<and>
   received 0
      [Type (ustr ''hi''), Send, Work 0 Go, Work 0 (Respond 200),
       Work 0 (Line (Parsed (JObj [(ustr ''response'', JStr (ustr ''a''))])))]
      (new_window Absent) = ustr ''a'' \<and>
   callbacks 0
      [Type (ustr ''hi''), Send, Work 0 Go, Work 0 (Respond 200),
       Work 0 (Line (Parsed (JObj [(ustr ''response'', JStr (ustr ''a''))]))),
       Dispatch, Work 0 Eof, Dispatch]
      (new_window Absent) = [OnChunk 0 (ustr ''a''), OnDone 0 (ustr ''a'')]"
proof -
  let ?acts1 = "[Type (ustr ''hi''), Send, Work 0 Go, Work 0 (Respond 200),
       Work 0 (Line (Parsed (JObj [(ustr ''response'', JStr (ustr ''a''))])))]"
  let ?acts = "[Type (ustr ''hi''), Send, Work 0 Go, Work 0 (Respond 200),
       Work 0 (Line (Parsed (JObj [(ustr ''response'', JStr (ustr ''a''))]))),
       Dispatch, Work 0 Eof, Dispatch]"
  have no_threads: "threads (new_window Absent) = []" and no_idle: "idle (new_window Absent) = []"
    by (simp_all add: new_window_def)
  have shown: "observe Dispatch (run ?acts1 (new_window Absent)) = [OnChunk 0 (ustr ''a'')]"
    by (simp add: model_defs text_defs)
  have calls: "callbacks 0 ?acts (new_window Absent) =
      [] @ OnChunk 0 (ustr ''a'') # OnDone 0 (ustr ''a'') # []"
    by (simp add: callbacks_def model_defs text_defs)
  from accumulated_text[OF no_threads no_idle, where ?acts1.0 = ?acts1 and i = 0
      and t = "ustr ''a''" and acts = ?acts and pre = "[]" and ?t1.0 = "ustr ''a''"
      and ?t2.0 = "ustr ''a''" and post = "[]"] shown calls
  show ?thesis by simp
qed

end
